theory Spec2Isabelle
  imports Complex_Main "HOL-Library.Sublist"
begin

section \<open>Strings and the standard-library functions the program calls\<close>

text \<open>
  A Python \<open>str\<close> is a sequence of code points. It is modelled as a \<open>string\<close>, one
  \<open>char\<close> per code point, which covers the code points below 256 (Latin-1). The
  character classes below are those of CPython on that range.
\<close>

text \<open>\<open>str.replace(c, r)\<close> for a one-character pattern \<open>c\<close>.\<close>

definition replace_char :: "char \<Rightarrow> string \<Rightarrow> string \<Rightarrow> string" where
  "replace_char c r s = concat (map (\<lambda>x. if x = c then r else [x]) s)"

text \<open>
  \<open>html.escape(s)\<close> with its default \<open>quote=True\<close>: five replacements in sequence,
  the ampersand first.
\<close>

definition html_escape :: "string \<Rightarrow> string" where
  "html_escape s =
     replace_char (CHR 0x27) ''&#x27;''
       (replace_char (CHR 0x22) ''&quot;''
         (replace_char CHR ''>'' ''&gt;''
           (replace_char CHR ''<'' ''&lt;''
             (replace_char CHR ''&'' ''&amp;'' s))))"

text \<open>What \<open>html.escape\<close> does to a single character.\<close>

definition escape_char :: "char \<Rightarrow> string" where
  "escape_char c =
     (if c = CHR ''&'' then ''&amp;''
      else if c = CHR ''<'' then ''&lt;''
      else if c = CHR ''>'' then ''&gt;''
      else if c = CHR 0x22 then ''&quot;''
      else if c = CHR 0x27 then ''&#x27;''
      else [c])"

definition reserved :: "char \<Rightarrow> bool" where
  "reserved c \<longleftrightarrow> c \<in> {CHR ''&'', CHR ''<'', CHR ''>'', CHR 0x22, CHR 0x27}"

text \<open>\<open>str(n)\<close> for an integer: decimal digits, a minus sign when negative.\<close>

fun str_nat :: "nat \<Rightarrow> string" where
  "str_nat n =
     (if n < 10 then [''0123456789'' ! n]
      else str_nat (n div 10) @ [''0123456789'' ! (n mod 10)])"

definition str_int :: "int \<Rightarrow> string" where
  "str_int i = (if i < 0 then CHR ''-'' # str_nat (nat (- i)) else str_nat (nat i))"

section \<open>The rich-text transcoder: \<open>entities_to_html\<close>\<close>

text \<open>
  The class of a Telethon message entity, read by the source through
  \<open>ent.__class__.__name__\<close>. \<open>MessageEntityOther\<close> stands for every class the
  source does not name.
\<close>

datatype entity_class =
    MessageEntityBold
  | MessageEntityItalic
  | MessageEntityCode
  | MessageEntityPre
  | MessageEntityTextUrl
  | MessageEntityUrl
  | MessageEntityMentionName
  | MessageEntityTextMention
  | MessageEntityUnderline
  | MessageEntityStrike
  | MessageEntitySpoiler
  | MessageEntityOther

text \<open>
  An entity: its class, its span (offset and length count code units of the text, so
  they are natural numbers), the \<open>url\<close> attribute (\<open>''''\<close> when absent, as
  \<open>getattr(ent, "url", "")\<close> reads it), the \<open>user_id\<close> attribute and the \<open>id\<close> of
  the \<open>user\<close> attribute (\<open>None\<close> when absent).
\<close>

record entity =
  cls :: entity_class
  ent_offset :: nat
  ent_length :: nat
  url :: string
  user_id :: "int option"
  user :: "int option"

text \<open>
  \<open>getattr(ent, "user_id", None) or getattr(getattr(ent, "user", None), "id", None)\<close>:
  the first operand when it is truthy (present and not zero), the second otherwise.
\<close>

definition mention_user_id :: "entity \<Rightarrow> int option" where
  "mention_user_id ent =
     (case user_id ent of
        Some u \<Rightarrow> if u \<noteq> 0 then Some u else user ent
      | None \<Rightarrow> user ent)"

text \<open>
  The body of the first loop up to the two appends: the start and end tag of an
  entity, or \<open>None\<close> where the source takes \<open>continue\<close>.
\<close>

definition entity_tags :: "entity \<Rightarrow> (string \<times> string) option" where
  "entity_tags ent =
     (case cls ent of
        MessageEntityBold \<Rightarrow> Some (''<b>'', ''</b>'')
      | MessageEntityItalic \<Rightarrow> Some (''<i>'', ''</i>'')
      | MessageEntityCode \<Rightarrow> Some (''<code>'', ''</code>'')
      | MessageEntityPre \<Rightarrow> Some (''<pre>'', ''</pre>'')
      | MessageEntityTextUrl \<Rightarrow>
          Some (''<a href='' @ [CHR 0x22] @ html_escape (url ent) @ [CHR 0x22] @ ''>'', ''</a>'')
      | MessageEntityUrl \<Rightarrow> Some (''<a href='' @ [CHR 0x22], ''</a>'')
      | MessageEntityMentionName \<Rightarrow>
          (case mention_user_id ent of
             Some u \<Rightarrow>
               if u \<noteq> 0
               then Some (''<a href='' @ [CHR 0x22] @ ''tg://user?id='' @ str_int u @ [CHR 0x22] @ ''>'', ''</a>'')
               else Some ('''', '''')
           | None \<Rightarrow> Some ('''', ''''))
      | MessageEntityTextMention \<Rightarrow>
          (case mention_user_id ent of
             Some u \<Rightarrow>
               if u \<noteq> 0
               then Some (''<a href='' @ [CHR 0x22] @ ''tg://user?id='' @ str_int u @ [CHR 0x22] @ ''>'', ''</a>'')
               else Some ('''', '''')
           | None \<Rightarrow> Some ('''', ''''))
      | MessageEntityUnderline \<Rightarrow> Some (''<u>'', ''</u>'')
      | MessageEntityStrike \<Rightarrow> Some (''<s>'', ''</s>'')
      | MessageEntitySpoiler \<Rightarrow> Some (''<tg-spoiler>'', ''</tg-spoiler>'')
      | MessageEntityOther \<Rightarrow> None)"

text \<open>The list \<open>inserts\<close> after the first loop.\<close>

fun collect_inserts :: "entity list \<Rightarrow> (nat \<times> string) list" where
  "collect_inserts [] = []"
| "collect_inserts (ent # ents) =
     (case entity_tags ent of
        None \<Rightarrow> collect_inserts ents
      | Some (start_tag, end_tag) \<Rightarrow>
          (ent_offset ent, start_tag)
            # (ent_offset ent + ent_length ent, end_tag)
            # collect_inserts ents)"

text \<open>
  The second loop: \<open>inserts_by_pos.setdefault(pos, []).append(tag)\<close> for each insert,
  starting from the dictionary \<open>m\<close>.
\<close>

fun group_inserts :: "(nat \<times> string) list \<Rightarrow> (nat \<rightharpoonup> string list) \<Rightarrow> (nat \<rightharpoonup> string list)" where
  "group_inserts [] m = m"
| "group_inserts ((pos, tag) # rest) m =
     group_inserts rest (m(pos \<mapsto> (case m pos of None \<Rightarrow> [] | Some tags \<Rightarrow> tags) @ [tag]))"

text \<open>
  One round of the third loop: what position \<open>i\<close> appends to \<open>out\<close>; then the whole
  loop over \<open>range(len(text) + 1)\<close>.
\<close>

definition walk_step :: "string \<Rightarrow> (nat \<rightharpoonup> string list) \<Rightarrow> nat \<Rightarrow> string list" where
  "walk_step text inserts_by_pos i =
     (case inserts_by_pos i of None \<Rightarrow> [] | Some tags \<Rightarrow> tags)
       @ (if i < length text then [html_escape [text ! i]] else [])"

definition walk_out :: "string \<Rightarrow> (nat \<rightharpoonup> string list) \<Rightarrow> string list" where
  "walk_out text inserts_by_pos =
     concat (map (walk_step text inserts_by_pos) [0..<length text + 1])"

definition entities_to_html :: "string \<Rightarrow> entity list \<Rightarrow> string" where
  "entities_to_html text entities =
     (if entities = [] then html_escape text
      else concat (walk_out text (group_inserts (collect_inserts entities) Map.empty)))"

text \<open>
  The pieces of the output, for stating what the walk emits: \<open>Tag k\<close> is the
  \<open>k\<close>-th element of \<open>inserts\<close>, \<open>Lit i\<close> is the \<open>i\<close>-th character of the text.
  \<open>pieces_at\<close> lists what position \<open>i\<close> contributes and \<open>render\<close> gives the string
  each piece stands for; that the source's \<open>out\<close> is \<open>map render pieces\<close> is proved
  below (\<open>walk_out_pieces\<close>).
\<close>

datatype piece = Tag nat | Lit nat

definition pieces_at :: "string \<Rightarrow> (nat \<times> string) list \<Rightarrow> nat \<Rightarrow> piece list" where
  "pieces_at text ins i =
     map Tag (filter (\<lambda>k. fst (ins ! k) = i) [0..<length ins])
       @ (if i < length text then [Lit i] else [])"

definition pieces :: "string \<Rightarrow> (nat \<times> string) list \<Rightarrow> piece list" where
  "pieces text ins = concat (map (pieces_at text ins) [0..<length text + 1])"

fun render :: "string \<Rightarrow> (nat \<times> string) list \<Rightarrow> piece \<Rightarrow> string" where
  "render text ins (Tag k) = snd (ins ! k)"
| "render text ins (Lit i) = html_escape [text ! i]"

fun is_lit :: "piece \<Rightarrow> bool" where
  "is_lit (Lit i) = True"
| "is_lit (Tag k) = False"

text \<open>The position a piece is emitted at, and its rank among the pieces of that position.\<close>

fun piece_pos :: "(nat \<times> string) list \<Rightarrow> piece \<Rightarrow> nat" where
  "piece_pos ins (Tag k) = fst (ins ! k)"
| "piece_pos ins (Lit i) = i"

fun piece_rank :: "(nat \<times> string) list \<Rightarrow> piece \<Rightarrow> nat" where
  "piece_rank ins (Tag k) = k"
| "piece_rank ins (Lit i) = length ins"

definition piece_before :: "(nat \<times> string) list \<Rightarrow> piece \<Rightarrow> piece \<Rightarrow> bool" where
  "piece_before ins p q \<longleftrightarrow>
     piece_pos ins p < piece_pos ins q
       \<or> (piece_pos ins p = piece_pos ins q \<and> piece_rank ins p < piece_rank ins q)"

text \<open>
  The entities that reach the two appends (those of a class the source names), and the
  pieces of the output of \<open>entities_to_html\<close>: the \<open>j\<close>-th such entity owns the inserts
  \<open>2 * j\<close> (its start tag) and \<open>2 * j + 1\<close> (its end tag).
\<close>

definition tagged :: "entity list \<Rightarrow> entity list" where
  "tagged entities = filter (\<lambda>ent. entity_tags ent \<noteq> None) entities"

definition start_tag :: "entity \<Rightarrow> string" where
  "start_tag ent = fst (the (entity_tags ent))"

definition end_tag :: "entity \<Rightarrow> string" where
  "end_tag ent = snd (the (entity_tags ent))"

definition out_pieces :: "string \<Rightarrow> entity list \<Rightarrow> piece list" where
  "out_pieces text entities = pieces text (collect_inserts entities)"

definition render_piece :: "string \<Rightarrow> entity list \<Rightarrow> piece \<Rightarrow> string" where
  "render_piece text entities = render text (collect_inserts entities)"

section \<open>Identifiers: \<open>normalize_id\<close>\<close>

text \<open>An exception that leaves a function of the program.\<close>

datatype py_error = ValueError

text \<open>A raw identifier of the configuration: an integer or a string.\<close>

datatype raw_id = IntId int | StrId string

text \<open>
  \<open>str.isdigit()\<close>: true when the string is not empty and every character is a digit.
  Below 256 the digits of \<open>isdigit\<close> are the ten decimal digits and the superscripts
  U+00B2, U+00B3 and U+00B9.
\<close>

definition isdigit_char :: "char \<Rightarrow> bool" where
  "isdigit_char c \<longleftrightarrow> c \<in> set ''0123456789'' \<or> c \<in> {CHR 0xB2, CHR 0xB3, CHR 0xB9}"

definition isdigit :: "string \<Rightarrow> bool" where
  "isdigit s \<longleftrightarrow> s \<noteq> [] \<and> list_all isdigit_char s"

definition startswith_minus :: "string \<Rightarrow> bool" where
  "startswith_minus s = (case s of [] \<Rightarrow> False | c # _ \<Rightarrow> c = CHR ''-'')"

text \<open>
  The test the source writes three times:
  \<open>v.isdigit() or (v.startswith("-") and v[1:].isdigit())\<close>.
\<close>

definition numeric_looking :: "string \<Rightarrow> bool" where
  "numeric_looking v \<longleftrightarrow> isdigit v \<or> (startswith_minus v \<and> isdigit (drop 1 v))"

text \<open>
  \<open>int(s)\<close> for a string: an optional minus sign and at least one decimal digit give the
  integer, anything else raises \<open>ValueError\<close>. (CPython's \<open>int\<close> also takes surrounding
  white space, a plus sign and underscores between digits; no string that passes
  \<open>numeric_looking\<close> has them, and the program calls \<open>int\<close> on no other string.)
\<close>

definition decimal_char :: "char \<Rightarrow> bool" where
  "decimal_char c \<longleftrightarrow> c \<in> set ''0123456789''"

definition digit_value :: "char \<Rightarrow> nat" where
  "digit_value c = of_char c - 48"

definition decimal_value :: "string \<Rightarrow> nat" where
  "decimal_value s = foldl (\<lambda>a c. 10 * a + digit_value c) 0 s"

definition py_int :: "string \<Rightarrow> py_error + int" where
  "py_int s =
     (let ds = (if startswith_minus s then drop 1 s else s) in
      if ds \<noteq> [] \<and> list_all decimal_char ds
      then Inr (if startswith_minus s then - int (decimal_value ds) else int (decimal_value ds))
      else Inl ValueError)"

definition normalize_id :: "raw_id \<Rightarrow> py_error + raw_id" where
  "normalize_id v =
     (case v of
        IntId n \<Rightarrow> Inr (IntId n)
      | StrId s \<Rightarrow>
          if numeric_looking s
          then (case py_int s of Inl e \<Rightarrow> Inl e | Inr n \<Rightarrow> Inr (IntId n))
          else Inr (StrId s))"

section \<open>The mapping resolver: \<open>_resolve_mappings\<close>\<close>

text \<open>
  The directory of the platform, \<open>asyncio.wait_for(self.client.get_entity(name), 10)\<close>:
  the id of the entity found, a timeout, or any other failure. During one resolution
  the answer is a function of the name.
\<close>

datatype lookup_result = Found int | TimeoutError | LookupFailed

type_synonym directory = "string \<Rightarrow> lookup_result"

text \<open>\<open>int(x)\<close> for a value that is an integer or a string.\<close>

definition int_of_id :: "raw_id \<Rightarrow> py_error + int" where
  "int_of_id v = (case v of IntId n \<Rightarrow> Inr n | StrId s \<Rightarrow> py_int s)"

text \<open>
  The body of the inner loop, for one raw destination: \<open>Inl\<close> when an exception leaves
  the loop (the call of \<open>normalize_id\<close> is outside every \<open>try\<close>), \<open>Inr None\<close> when the
  destination is skipped, \<open>Inr (Some i)\<close> when \<open>i\<close> is appended to \<open>dest_ids\<close>.
\<close>

definition resolve_dest :: "directory \<Rightarrow> raw_id \<Rightarrow> py_error + int option" where
  "resolve_dest get_entity d =
     (case normalize_id d of
        Inl e \<Rightarrow> Inl e
      | Inr d_norm \<Rightarrow>
          (case d_norm of
             StrId s \<Rightarrow>
               if \<not> numeric_looking s
               then (case get_entity s of
                       Found i \<Rightarrow> Inr (Some i)
                     | TimeoutError \<Rightarrow> Inr None
                     | LookupFailed \<Rightarrow> Inr None)
               else (case py_int s of Inl e \<Rightarrow> Inr None | Inr n \<Rightarrow> Inr (Some n))
           | IntId n \<Rightarrow> Inr (Some n)))"

text \<open>The inner loop over \<open>raw_dests\<close>, with \<open>dest_ids\<close> as accumulator.\<close>

fun resolve_dests :: "directory \<Rightarrow> raw_id list \<Rightarrow> int list \<Rightarrow> py_error + int list" where
  "resolve_dests get_entity [] dest_ids = Inr dest_ids"
| "resolve_dests get_entity (d # ds) dest_ids =
     (case resolve_dest get_entity d of
        Inl e \<Rightarrow> Inl e
      | Inr None \<Rightarrow> resolve_dests get_entity ds dest_ids
      | Inr (Some i) \<Rightarrow> resolve_dests get_entity ds (dest_ids @ [i]))"

text \<open>
  The first part of the outer loop body, for one raw source: \<open>src_id\<close>, or \<open>None\<close>
  where the source takes \<open>continue\<close>. An exception of \<open>normalize_id\<close> is caught here
  and the raw value kept.
\<close>

definition resolve_source :: "directory \<Rightarrow> raw_id \<Rightarrow> raw_id option" where
  "resolve_source get_entity raw_src =
     (let src_norm = (case normalize_id raw_src of Inl e \<Rightarrow> raw_src | Inr v \<Rightarrow> v) in
      case src_norm of
        StrId s \<Rightarrow>
          if \<not> numeric_looking s
          then (case get_entity s of
                  Found i \<Rightarrow> Some (IntId i)
                | TimeoutError \<Rightarrow> None
                | LookupFailed \<Rightarrow> None)
          else Some (StrId s)
      | IntId n \<Rightarrow> Some (IntId n))"

text \<open>
  The outer loop over \<open>self.raw_mappings.items()\<close>, with the dictionary \<open>resolved\<close> as
  accumulator, and the whole function, whose result is the new \<open>self.mappings\<close>.
\<close>

fun resolve_loop ::
  "directory \<Rightarrow> (raw_id \<times> raw_id list) list \<Rightarrow> (int \<rightharpoonup> int list) \<Rightarrow> py_error + (int \<rightharpoonup> int list)"
where
  "resolve_loop get_entity [] resolved = Inr resolved"
| "resolve_loop get_entity ((raw_src, raw_dests) # rest) resolved =
     (case resolve_source get_entity raw_src of
        None \<Rightarrow> resolve_loop get_entity rest resolved
      | Some src_id \<Rightarrow>
          (case resolve_dests get_entity raw_dests [] of
             Inl e \<Rightarrow> Inl e
           | Inr dest_ids \<Rightarrow>
               if dest_ids \<noteq> []
               then (case int_of_id src_id of
                       Inl e \<Rightarrow> Inl e
                     | Inr k \<Rightarrow> resolve_loop get_entity rest (resolved(k \<mapsto> dest_ids)))
               else resolve_loop get_entity rest resolved))"

definition resolve_mappings ::
  "directory \<Rightarrow> (raw_id \<times> raw_id list) list \<Rightarrow> py_error + (int \<rightharpoonup> int list)"
where
  "resolve_mappings get_entity raw_mappings = resolve_loop get_entity raw_mappings Map.empty"

text \<open>
  The destinations of a declaration that resolve, in the order of the declaration:
  each raw destination gives its id or nothing.
\<close>

definition resolved_in_order :: "directory \<Rightarrow> raw_id list \<Rightarrow> int list" where
  "resolved_in_order get_entity raw_dests =
     concat (map (\<lambda>d. case resolve_dest get_entity d of
                         Inr (Some i) \<Rightarrow> [i]
                       | Inr None \<Rightarrow> []
                       | Inl e \<Rightarrow> []) raw_dests)"

text \<open>What the claim about the routing table says of one entry, over the raw declarations.\<close>

definition entry_ok :: "directory \<Rightarrow> (raw_id \<times> raw_id list) list \<Rightarrow> int \<Rightarrow> int list \<Rightarrow> bool" where
  "entry_ok get_entity raw src dests \<longleftrightarrow>
     dests \<noteq> []
     \<and> (\<exists>raw_src raw_dests src_id.
           (raw_src, raw_dests) \<in> set raw
         \<and> resolve_source get_entity raw_src = Some src_id
         \<and> int_of_id src_id = Inr src
         \<and> dests = resolved_in_order get_entity raw_dests)"

section \<open>The handler: \<open>_on_message\<close>\<close>

text \<open>
  \<open>str.isspace\<close>, \<open>str.strip()\<close>, \<open>str.lower()\<close> and the substring test \<open>k in t\<close>,
  on code points below 256.
\<close>

definition isspace_char :: "char \<Rightarrow> bool" where
  "isspace_char c \<longleftrightarrow> (of_char c :: nat) \<in> {9, 10, 11, 12, 13, 28, 29, 30, 31, 32, 133, 160}"

definition py_strip :: "string \<Rightarrow> string" where
  "py_strip s = rev (dropWhile isspace_char (rev (dropWhile isspace_char s)))"

definition lower_char :: "char \<Rightarrow> char" where
  "lower_char c =
     (let n = (of_char c :: nat) in
      if (65 \<le> n \<and> n \<le> 90) \<or> (192 \<le> n \<and> n \<le> 222 \<and> n \<noteq> 215)
      then char_of (n + 32) else c)"

definition py_lower :: "string \<Rightarrow> string" where
  "py_lower s = map lower_char s"

fun py_in :: "string \<Rightarrow> string \<Rightarrow> bool" where
  "py_in k [] \<longleftrightarrow> k = []"
| "py_in k (c # t) \<longleftrightarrow> prefix k (c # t) \<or> py_in k t"

text \<open>
  The message of an event, with the attributes the handler reads: \<open>action\<close> (set on
  service messages), \<open>message\<close> (the text, possibly \<open>None\<close>), \<open>media\<close> and \<open>entities\<close>.
\<close>

record tl_message =
  action :: "string option"
  message :: "string option"
  media :: "string option"
  entities :: "entity list option"

text \<open>
  The fields of \<open>MirrorBot\<close> the handler reads. \<open>init_keywords\<close> is what \<open>__init__\<close>
  stores in \<open>self.keywords\<close> (the field \<open>keyword_list\<close>); \<open>delay\<close> is a float in the source, a real number here.
\<close>

record mirror_bot =
  keyword_list :: "string list"
  delay :: real
  mappings :: "int \<rightharpoonup> int list"

definition init_keywords :: "string list \<Rightarrow> string list" where
  "init_keywords ks = (if ks \<noteq> [] then map py_lower ks else [])"

text \<open>\<open>msg.message or ""\<close>, and "empty or only white space".\<close>

definition body :: "tl_message \<Rightarrow> string" where
  "body msg = (case message msg of None \<Rightarrow> [] | Some t \<Rightarrow> t)"

definition blank :: "string \<Rightarrow> bool" where
  "blank s \<longleftrightarrow> (\<forall>c\<in>set s. isspace_char c)"

text \<open>
  The filter at the head of the handler (lines 85 to 97): the message is ignored
  silently, skipped with a log line for want of a keyword, or accepted with its text.
\<close>

datatype verdict = Ignored | Skipped | Accepted string

definition filter_message :: "string list \<Rightarrow> tl_message \<Rightarrow> verdict" where
  "filter_message kws msg =
     (if action msg \<noteq> None then Ignored
      else if (case message msg of None \<Rightarrow> True | Some t \<Rightarrow> t = [] \<or> py_strip t = [])
              \<and> media msg = None then Ignored
      else
        let text = (case message msg of None \<Rightarrow> [] | Some t \<Rightarrow> t) in
        if kws \<noteq> []
        then (if \<not> list_ex (\<lambda>k. py_in k (py_lower text)) kws then Skipped else Accepted text)
        else Accepted text)"

text \<open>
  The calls to the client, their results, and what the handler does that can be
  observed: calls, sleeps and log lines. The client is a function of its own state
  \<open>'w\<close>, so that the same call may end differently at different times.
\<close>

datatype send_call =
    SendFile int string "string option" "entity list option"
  | SendMessage int string bool

datatype send_result =
    Sent
  | FloodWaitError "int option"
  | ChatWriteForbiddenError
  | OtherError

datatype event =
    Call send_call
  | Sleep real
  | LogMirrored int int
  | LogFloodWait int int
  | LogPermissionDenied int
  | LogFailed int
  | LogNoDestination int
  | LogSkipped

type_synonym 'w client = "'w \<Rightarrow> send_call \<Rightarrow> send_result \<times> 'w"

fun call_dest :: "send_call \<Rightarrow> int" where
  "call_dest (SendFile dest m caption ents) = dest"
| "call_dest (SendMessage dest t html) = dest"

fun calls_of :: "event list \<Rightarrow> send_call list" where
  "calls_of [] = []"
| "calls_of (Call c # evs) = c # calls_of evs"
| "calls_of (ev # evs) = calls_of evs"

text \<open>
  The sends of one round of the loop (lines 109 to 126): the calls made, then \<open>Sent\<close>
  or the exception that leaves the block. The third argument of \<open>SendMessage\<close> says
  whether \<open>parse_mode="html"\<close> is passed. \<open>except Exception\<close> on line 122 catches every
  exception of the markup send.
\<close>

definition send_body ::
  "'w client \<Rightarrow> tl_message \<Rightarrow> string \<Rightarrow> int \<Rightarrow> 'w \<Rightarrow> event list \<times> send_result \<times> 'w"
where
  "send_body client msg text dest w =
     (case media msg of
        Some m \<Rightarrow>
          (let c = SendFile dest m (if text \<noteq> [] then Some text else None)
                     (case entities msg of
                        None \<Rightarrow> None
                      | Some [] \<Rightarrow> None
                      | Some (e # es) \<Rightarrow> Some (e # es));
               (r, w') = client w c
           in ([Call c], r, w'))
      | None \<Rightarrow>
          (case entities msg of
             Some (e # es) \<Rightarrow>
               (let c1 = SendMessage dest (entities_to_html text (e # es)) True;
                    (r1, w1) = client w c1
                in if r1 = Sent then ([Call c1], Sent, w1)
                   else (let c2 = SendMessage dest text False;
                             (r2, w2) = client w1 c2
                         in ([Call c1, Call c2], r2, w2)))
           | Some [] \<Rightarrow>
               (let c = SendMessage dest text False; (r, w') = client w c in ([Call c], r, w'))
           | None \<Rightarrow>
               (let c = SendMessage dest text False; (r, w') = client w c in ([Call c], r, w'))))"

text \<open>
  The rest of the round (lines 128 to 140): the log line and the pacing sleep after a
  send that worked, or the handler of the exception. \<open>wait\<close> is the \<open>seconds\<close> of the
  error, 60 when it has none.
\<close>

definition after_send :: "real \<Rightarrow> int \<Rightarrow> int \<Rightarrow> send_result \<Rightarrow> event list" where
  "after_send dly src_id dest r =
     (case r of
        Sent \<Rightarrow> LogMirrored src_id dest # (if dly \<noteq> 0 \<and> dly > 0 then [Sleep dly] else [])
      | FloodWaitError secs \<Rightarrow>
          (let wait = (case secs of Some n \<Rightarrow> n | None \<Rightarrow> 60)
           in [LogFloodWait dest wait, Sleep (real_of_int (wait + 5))])
      | ChatWriteForbiddenError \<Rightarrow> [LogPermissionDenied dest]
      | OtherError \<Rightarrow> [LogFailed dest])"

definition mirror_to ::
  "'w client \<Rightarrow> real \<Rightarrow> tl_message \<Rightarrow> string \<Rightarrow> int \<Rightarrow> int \<Rightarrow> 'w \<Rightarrow> event list \<times> 'w"
where
  "mirror_to client dly msg text src_id dest w =
     (case send_body client msg text dest w of
        (calls, r, w') \<Rightarrow> (calls @ after_send dly src_id dest r, w'))"

text \<open>The loop \<open>for dest in dests\<close>.\<close>

fun deliver ::
  "'w client \<Rightarrow> real \<Rightarrow> tl_message \<Rightarrow> string \<Rightarrow> int \<Rightarrow> int list \<Rightarrow> 'w \<Rightarrow> event list \<times> 'w"
where
  "deliver client dly msg text src_id [] w = ([], w)"
| "deliver client dly msg text src_id (dest # dests) w =
     (case mirror_to client dly msg text src_id dest w of
        (evs, w') \<Rightarrow>
          (case deliver client dly msg text src_id dests w' of
             (evs', w'') \<Rightarrow> (evs @ evs', w'')))"

text \<open>The handler, for an event from chat \<open>src_id\<close> carrying \<open>msg\<close>.\<close>

definition on_message ::
  "mirror_bot \<Rightarrow> 'w client \<Rightarrow> int \<Rightarrow> tl_message \<Rightarrow> 'w \<Rightarrow> event list \<times> 'w"
where
  "on_message self client src_id msg w =
     (case filter_message (keyword_list self) msg of
        Ignored \<Rightarrow> ([], w)
      | Skipped \<Rightarrow> ([LogSkipped], w)
      | Accepted text \<Rightarrow>
          (let dests = (case mappings self src_id of None \<Rightarrow> [] | Some ds \<Rightarrow> ds) in
           if dests = [] then ([LogNoDestination src_id], w)
           else deliver client (delay self) msg text src_id dests w))"

section \<open>Properties\<close>

subsection \<open>Escaping\<close>

lemma replace_char_append:
  "replace_char c r (a @ b) = replace_char c r a @ replace_char c r b"
  by (simp add: replace_char_def)

lemma html_escape_Nil: "html_escape [] = []"
  by (simp add: html_escape_def replace_char_def)

lemma html_escape_append: "html_escape (a @ b) = html_escape a @ html_escape b"
  by (simp add: html_escape_def replace_char_append)

lemma html_escape_single: "html_escape [c] = escape_char c"
  by (simp add: html_escape_def replace_char_def escape_char_def)

lemma html_escape_Cons: "html_escape (c # s) = escape_char c @ html_escape s"
  using html_escape_append [of "[c]" s] by (simp add: html_escape_single)

lemma html_escape_chars: "html_escape s = concat (map escape_char s)"
  by (induction s) (simp_all add: html_escape_Nil html_escape_Cons)

lemma escape_char_plain: "\<not> reserved c \<Longrightarrow> escape_char c = [c]"
  by (simp add: reserved_def escape_char_def)

lemma escape_char_reserved:
  "reserved c \<Longrightarrow> hd (escape_char c) = CHR ''&'' \<and> 1 < length (escape_char c)"
  by (auto simp add: reserved_def escape_char_def)

lemma escape_char_length: "1 \<le> length (escape_char c)"
  by (simp add: escape_char_def)

lemma html_escape_plain: "\<forall>c\<in>set s. \<not> reserved c \<Longrightarrow> html_escape s = s"
  by (induction s) (simp_all add: html_escape_Nil html_escape_Cons escape_char_plain)

lemma html_escape_length: "length s \<le> length (html_escape s)"
proof (induction s)
  case Nil show ?case by (simp add: html_escape_Nil)
next
  case (Cons c s)
  with escape_char_length [of c] show ?case by (simp add: html_escape_Cons)
qed

lemma html_escape_longer:
  "\<exists>c\<in>set s. reserved c \<Longrightarrow> length s < length (html_escape s)"
proof (induction s)
  case Nil then show ?case by simp
next
  case (Cons c s)
  show ?case
  proof (cases "reserved c")
    case True
    with escape_char_reserved [of c] html_escape_length [of s] show ?thesis
      by (simp add: html_escape_Cons)
  next
    case False
    with Cons have "length s < length (html_escape s)" by auto
    with False show ?thesis by (simp add: html_escape_Cons escape_char_plain)
  qed
qed

lemma html_escape_has_amp:
  "\<exists>c\<in>set s. reserved c \<Longrightarrow> CHR ''&'' \<in> set (html_escape s)"
proof (induction s)
  case Nil then show ?case by simp
next
  case (Cons c s)
  show ?case
  proof (cases "reserved c")
    case True
    with escape_char_reserved [of c] have "escape_char c \<noteq> []" "hd (escape_char c) = CHR ''&''"
      by auto
    then have "CHR ''&'' \<in> set (escape_char c)" by (metis hd_in_set)
    then show ?thesis by (simp add: html_escape_Cons)
  next
    case False
    with Cons show ?thesis by (auto simp add: html_escape_Cons)
  qed
qed

text \<open>
  C6, as stated: escaping an escaped string gives the escaped string again. It fails:
  the ampersand that escaping introduces is escaped again.
\<close>

theorem escape_not_idempotent:
  "html_escape (html_escape ''&'') \<noteq> html_escape ''&''"
  by (simp add: html_escape_def replace_char_def)

text \<open>
  C6, amended: escaping a second time changes nothing exactly when the string has none
  of the five reserved characters (and then the first escaping changed nothing either).
\<close>

theorem escape_twice_iff:
  "html_escape (html_escape s) = html_escape s \<longleftrightarrow> (\<forall>c\<in>set s. \<not> reserved c)"
proof
  assume eq: "html_escape (html_escape s) = html_escape s"
  show "\<forall>c\<in>set s. \<not> reserved c"
  proof (rule ccontr)
    assume "\<not> (\<forall>c\<in>set s. \<not> reserved c)"
    then have "\<exists>c\<in>set s. reserved c" by simp
    then have "CHR ''&'' \<in> set (html_escape s)" by (rule html_escape_has_amp)
    moreover have "reserved CHR ''&''" by (simp add: reserved_def)
    ultimately have "\<exists>c\<in>set (html_escape s). reserved c" by blast
    then have "length (html_escape s) < length (html_escape (html_escape s))"
      by (rule html_escape_longer)
    with eq show False by simp
  qed
next
  assume "\<forall>c\<in>set s. \<not> reserved c"
  then show "html_escape (html_escape s) = html_escape s"
    by (simp add: html_escape_plain)
qed

theorem escape_twice_iff_witness:
  "html_escape (html_escape ''a b'') = html_escape ''a b''"
  using escape_twice_iff [of "''a b''"] by (simp add: reserved_def)

subsection \<open>The output of the walk, piece by piece\<close>

lemma group_inserts_lookup:
  "group_inserts ins m i =
     (if filter (\<lambda>p. fst p = i) ins = [] then m i
      else Some ((case m i of None \<Rightarrow> [] | Some ts \<Rightarrow> ts) @ map snd (filter (\<lambda>p. fst p = i) ins)))"
proof (induction ins arbitrary: m)
  case Nil
  show ?case by simp
next
  case (Cons a ins)
  obtain pos tag where a: "a = (pos, tag)" by (cases a)
  show ?case unfolding a by (simp add: Cons.IH)
qed

lemma filter_by_index:
  "filter P xs = map ((!) xs) (filter (\<lambda>k. P (xs ! k)) [0..<length xs])"
proof -
  have "filter P xs = filter P (map ((!) xs) [0..<length xs])" by (simp add: map_nth)
  also have "\<dots> = map ((!) xs) (filter (P \<circ> (!) xs) [0..<length xs])" by (rule filter_map)
  finally show ?thesis by (simp add: comp_def)
qed

lemma tags_at_position:
  "(case group_inserts ins Map.empty i of None \<Rightarrow> [] | Some tags \<Rightarrow> tags)
     = map (\<lambda>k. snd (ins ! k)) (filter (\<lambda>k. fst (ins ! k) = i) [0..<length ins])"
proof -
  have "(case group_inserts ins Map.empty i of None \<Rightarrow> [] | Some tags \<Rightarrow> tags)
          = map snd (filter (\<lambda>p. fst p = i) ins)"
    by (simp add: group_inserts_lookup)
  also have "filter (\<lambda>p. fst p = i) ins
          = map ((!) ins) (filter (\<lambda>k. fst (ins ! k) = i) [0..<length ins])"
    by (rule filter_by_index)
  finally show ?thesis by (simp add: comp_def)
qed

lemma walk_step_pieces:
  "walk_step text (group_inserts ins Map.empty) i = map (render text ins) (pieces_at text ins i)"
  unfolding walk_step_def pieces_at_def tags_at_position by (simp add: comp_def)

lemma walk_out_pieces:
  "walk_out text (group_inserts ins Map.empty) = map (render text ins) (pieces text ins)"
proof -
  have "walk_step text (group_inserts ins Map.empty)
          = (\<lambda>i. map (render text ins) (pieces_at text ins i))"
    by (rule ext) (rule walk_step_pieces)
  then show ?thesis
    unfolding walk_out_def pieces_def by (simp add: map_concat comp_def)
qed

lemma concat_guarded_upt:
  "concat (map (\<lambda>i. if i < n then [f i] else []) [0..<m]) = map f [0..<min m n]"
proof (induction m)
  case 0
  show ?case by simp
next
  case (Suc m)
  show ?case
  proof (cases "m < n")
    case True
    then have "min (Suc m) n = Suc m" "min m n = m" by simp_all
    with Suc True show ?thesis by simp
  next
    case False
    then have "min (Suc m) n = n" "min m n = n" by simp_all
    with Suc False show ?thesis by simp
  qed
qed

lemma filter_lit_pieces_at:
  "filter is_lit (pieces_at text ins i) = (if i < length text then [Lit i] else [])"
  by (simp add: pieces_at_def filter_map comp_def)

lemma literals_of_pieces:
  "filter is_lit (pieces text ins) = map Lit [0..<length text]"
proof -
  have "filter is_lit (pieces text ins)
          = concat (map (\<lambda>i. if i < length text then [Lit i] else []) [0..<length text + 1])"
    unfolding pieces_def by (simp add: filter_concat comp_def filter_lit_pieces_at)
  also have "\<dots> = map Lit [0..<min (length text + 1) (length text)]"
    by (rule concat_guarded_upt)
  finally show ?thesis by simp
qed

lemma pieces_no_inserts: "pieces text [] = map Lit [0..<length text]"
proof -
  have "pieces_at text [] = (\<lambda>i. if i < length text then [Lit i] else [])"
    by (rule ext) (simp add: pieces_at_def)
  then have "pieces text [] = concat (map (\<lambda>i. if i < length text then [Lit i] else []) [0..<length text + 1])"
    unfolding pieces_def by simp
  also have "\<dots> = map Lit [0..<min (length text + 1) (length text)]"
    by (rule concat_guarded_upt)
  finally show ?thesis by simp
qed

lemma render_literals:
  "concat (map (render text ins) (map Lit [0..<length text])) = html_escape text"
proof -
  have "map (render text ins) (map Lit [0..<length text])
          = map escape_char (map ((!) text) [0..<length text])"
    by (simp add: html_escape_single)
  then show ?thesis by (simp add: map_nth html_escape_chars)
qed

lemma entities_to_html_pieces:
  "entities_to_html text ents = concat (map (render_piece text ents) (out_pieces text ents))"
proof (cases "ents = []")
  case True
  have "concat (map (render text []) (pieces text [])) = html_escape text"
    unfolding pieces_no_inserts by (rule render_literals)
  with True show ?thesis
    by (simp add: entities_to_html_def render_piece_def out_pieces_def)
next
  case False
  then show ?thesis
    by (simp add: entities_to_html_def render_piece_def out_pieces_def walk_out_pieces)
qed

lemma pieces_at_pos: "p \<in> set (pieces_at text ins i) \<Longrightarrow> piece_pos ins p = i"
  by (auto simp add: pieces_at_def split: if_splits)

lemma sorted_pieces_at: "sorted_wrt (piece_before ins) (pieces_at text ins i)"
proof -
  have "sorted_wrt (<) (filter (\<lambda>k. fst (ins ! k) = i) [0..<length ins])"
    by (rule sorted_wrt_filter) simp
  then have "sorted_wrt (\<lambda>k k'. piece_before ins (Tag k) (Tag k'))
               (filter (\<lambda>k. fst (ins ! k) = i) [0..<length ins])"
    by (rule sorted_wrt_mono_rel [rotated]) (simp add: piece_before_def)
  then have "sorted_wrt (piece_before ins)
               (map Tag (filter (\<lambda>k. fst (ins ! k) = i) [0..<length ins]))"
    by (simp add: sorted_wrt_map)
  then show ?thesis
    by (auto simp add: pieces_at_def sorted_wrt_append piece_before_def)
qed

lemma sorted_wrt_concat_upt:
  assumes "\<And>i. sorted_wrt R (f i)"
    and "\<And>i j x y. i < j \<Longrightarrow> x \<in> set (f i) \<Longrightarrow> y \<in> set (f j) \<Longrightarrow> R x y"
  shows "sorted_wrt R (concat (map f [0..<m]))"
proof (induction m)
  case 0
  show ?case by simp
next
  case (Suc m)
  with assms show ?case by (auto simp add: sorted_wrt_append)
qed

lemma sorted_pieces: "sorted_wrt (piece_before ins) (pieces text ins)"
  unfolding pieces_def
proof (rule sorted_wrt_concat_upt)
  fix i
  show "sorted_wrt (piece_before ins) (pieces_at text ins i)" by (rule sorted_pieces_at)
next
  fix i j :: nat and x y
  assume "i < j" "x \<in> set (pieces_at text ins i)" "y \<in> set (pieces_at text ins j)"
  then show "piece_before ins x y"
    by (simp add: piece_before_def pieces_at_pos)
qed

lemma piece_before_irrefl: "\<not> piece_before ins p p"
  by (simp add: piece_before_def)

lemma piece_before_asym: "piece_before ins p q \<Longrightarrow> \<not> piece_before ins q p"
  by (auto simp add: piece_before_def)

lemma distinct_pieces: "distinct (pieces text ins)"
proof -
  have "\<forall>i j. i < j \<longrightarrow> j < length (pieces text ins)
          \<longrightarrow> piece_before ins (pieces text ins ! i) (pieces text ins ! j)"
    using sorted_pieces [of ins "text"] by (simp add: sorted_wrt_iff_nth_less)
  then have "\<forall>i j. i < j \<longrightarrow> j < length (pieces text ins)
          \<longrightarrow> pieces text ins ! i \<noteq> pieces text ins ! j"
    using piece_before_irrefl by metis
  then show ?thesis
    unfolding distinct_conv_nth by (metis nat_neq_iff)
qed

lemma pieces_in_order:
  assumes p: "p \<in> set (pieces text ins)" and q: "q \<in> set (pieces text ins)"
    and pq: "piece_before ins p q"
  shows "\<exists>a b. a < b \<and> b < length (pieces text ins)
            \<and> pieces text ins ! a = p \<and> pieces text ins ! b = q"
proof -
  let ?ps = "pieces text ins"
  from p obtain a where a: "a < length ?ps" "?ps ! a = p" by (auto simp add: in_set_conv_nth)
  from q obtain b where b: "b < length ?ps" "?ps ! b = q" by (auto simp add: in_set_conv_nth)
  have ord: "\<And>i j. i < j \<Longrightarrow> j < length ?ps \<Longrightarrow> piece_before ins (?ps ! i) (?ps ! j)"
    using sorted_pieces [of ins "text"] by (simp add: sorted_wrt_iff_nth_less)
  have "a \<noteq> b" using a b pq piece_before_irrefl by auto
  moreover have "\<not> b < a"
  proof
    assume "b < a"
    then have "piece_before ins (?ps ! b) (?ps ! a)" using a(1) by (rule ord)
    with a b pq piece_before_asym show False by auto
  qed
  ultimately have "a < b" by simp
  with a b show ?thesis by blast
qed

lemma Tag_in_pieces_at:
  "Tag k \<in> set (pieces_at text ins i) \<longleftrightarrow> k < length ins \<and> fst (ins ! k) = i"
  by (auto simp add: pieces_at_def)

lemma Tag_in_pieces:
  "Tag k \<in> set (pieces text ins) \<longleftrightarrow> k < length ins \<and> fst (ins ! k) \<le> length text"
  unfolding pieces_def by (auto simp add: Tag_in_pieces_at simp del: upt_Suc)

lemma length_collect_inserts: "length (collect_inserts ents) = 2 * length (tagged ents)"
  by (induction ents) (auto simp add: tagged_def split: option.splits)

lemma collect_inserts_nth:
  "j < length (tagged ents) \<Longrightarrow>
     collect_inserts ents ! (2 * j) = (ent_offset (tagged ents ! j), start_tag (tagged ents ! j))
   \<and> collect_inserts ents ! (2 * j + 1)
        = (ent_offset (tagged ents ! j) + ent_length (tagged ents ! j), end_tag (tagged ents ! j))"
proof (induction ents arbitrary: j)
  case Nil
  then show ?case by (simp add: tagged_def)
next
  case (Cons e ents)
  show ?case
  proof (cases "entity_tags e")
    case None
    then have "tagged (e # ents) = tagged ents" by (simp add: tagged_def)
    with Cons None show ?thesis by simp
  next
    case (Some st)
    obtain s t where st: "st = (s, t)" by (cases st)
    from Some have tg: "tagged (e # ents) = e # tagged ents" by (simp add: tagged_def)
    show ?thesis
    proof (cases j)
      case 0
      with Some st tg show ?thesis by (simp add: start_tag_def end_tag_def)
    next
      case (Suc j')
      with Cons.prems tg have "j' < length (tagged ents)" by simp
      from Cons.IH [OF this] Some st tg Suc show ?thesis by simp
    qed
  qed
qed

subsection \<open>What the transcoder emits\<close>

text \<open>
  C2: when every annotation lies within the text, the output of \<open>entities_to_html\<close> is
  the concatenation of its pieces, no piece occurs twice, the start tag of every tagged
  annotation is followed later by its own end tag, and the characters of the text are
  all there, in order, each one escaped.
\<close>

theorem transcode_well_formed:
  assumes wf: "\<forall>ent\<in>set ents. ent_offset ent + ent_length ent \<le> length text"
  shows "entities_to_html text ents
           = concat (map (render_piece text ents) (out_pieces text ents))
       \<and> distinct (out_pieces text ents)
       \<and> (\<forall>j<length (tagged ents). \<exists>a b.
             a < b \<and> b < length (out_pieces text ents)
             \<and> out_pieces text ents ! a = Tag (2 * j)
             \<and> out_pieces text ents ! b = Tag (2 * j + 1)
             \<and> render_piece text ents (Tag (2 * j)) = start_tag (tagged ents ! j)
             \<and> render_piece text ents (Tag (2 * j + 1)) = end_tag (tagged ents ! j))
       \<and> filter is_lit (out_pieces text ents) = map Lit [0..<length text]
       \<and> (\<forall>i<length text. render_piece text ents (Lit i) = html_escape [text ! i])"
proof -
  let ?ins = "collect_inserts ents"
  have matched: "\<exists>a b. a < b \<and> b < length (pieces text ?ins)
             \<and> pieces text ?ins ! a = Tag (2 * j) \<and> pieces text ?ins ! b = Tag (2 * j + 1)
             \<and> render text ?ins (Tag (2 * j)) = start_tag (tagged ents ! j)
             \<and> render text ?ins (Tag (2 * j + 1)) = end_tag (tagged ents ! j)"
    if j: "j < length (tagged ents)" for j
  proof -
    let ?e = "tagged ents ! j"
    from j have "?e \<in> set (tagged ents)" by simp
    then have "?e \<in> set ents" by (simp add: tagged_def)
    with wf have span: "ent_offset ?e + ent_length ?e \<le> length text" by blast
    from collect_inserts_nth [OF j]
    have op: "?ins ! (2 * j) = (ent_offset ?e, start_tag ?e)"
      and cl: "?ins ! (2 * j + 1) = (ent_offset ?e + ent_length ?e, end_tag ?e)" by simp_all
    from j have len: "2 * j + 1 < length ?ins" by (simp add: length_collect_inserts)
    from len op span have "Tag (2 * j) \<in> set (pieces text ?ins)" by (simp add: Tag_in_pieces)
    moreover from len cl span have "Tag (2 * j + 1) \<in> set (pieces text ?ins)"
      by (simp add: Tag_in_pieces)
    moreover from op cl have "piece_before ?ins (Tag (2 * j)) (Tag (2 * j + 1))"
      by (auto simp add: piece_before_def)
    ultimately have "\<exists>a b. a < b \<and> b < length (pieces text ?ins)
            \<and> pieces text ?ins ! a = Tag (2 * j) \<and> pieces text ?ins ! b = Tag (2 * j + 1)"
      by (rule pieces_in_order)
    with op cl show ?thesis by simp
  qed
  show ?thesis
    unfolding out_pieces_def render_piece_def
    using entities_to_html_pieces [of "text" ents] distinct_pieces [of "text" ?ins]
      literals_of_pieces [of "text" ?ins] matched
    by (simp add: out_pieces_def render_piece_def)
qed

theorem transcode_well_formed_witness:
  "(let text = ''a<b'';
        ents = [\<lparr>cls = MessageEntityBold, ent_offset = 0, ent_length = 1, url = [], user_id = None, user = None\<rparr>,
                    \<lparr>cls = MessageEntityItalic, ent_offset = 1, ent_length = 2, url = [], user_id = None, user = None\<rparr>]
    in (\<forall>ent\<in>set ents. ent_offset ent + ent_length ent \<le> length text)
       \<and> distinct (out_pieces text ents)
       \<and> filter is_lit (out_pieces text ents) = map Lit [0..<length text])"
  using transcode_well_formed [of
      "[\<lparr>cls = MessageEntityBold, ent_offset = 0, ent_length = 1, url = [], user_id = None, user = None\<rparr>,
        \<lparr>cls = MessageEntityItalic, ent_offset = 1, ent_length = 2, url = [], user_id = None, user = None\<rparr>]"
      "''a<b''"]
  by (simp add: Let_def)

text \<open>
  C3: a \<open>MessageEntityUrl\<close> over the whole text \<open>http://x.y\<close>. The start tag
  the source inserts is the unfinished \<open><a href="\<close>: the attribute value is never
  closed and the tag never ends, so the output is not an anchor element around the
  annotated text.
\<close>

theorem url_entity_tag_unclosed:
  \<open>entities_to_html ''http://x.y''
     [\<lparr>cls = MessageEntityUrl, ent_offset = 0, ent_length = 10, url = [], user_id = None, user = None\<rparr>]
   = ''<a href="http://x.y</a>''\<close>
  by code_simp

text \<open>
  C10: an annotation that runs past the end of the text. The function still returns
  (it has no failing branch); no insert scheduled beyond \<open>len(text)\<close> is emitted, so the
  end tag of the annotation is absent from the output, and its start tag is present
  exactly when its offset is at most \<open>len(text)\<close>.
\<close>

theorem out_of_range_tags_dropped:
  assumes j: "j < length (tagged ents)"
    and over: "length text < ent_offset (tagged ents ! j) + ent_length (tagged ents ! j)"
  shows "entities_to_html text ents
           = concat (map (render_piece text ents) (out_pieces text ents))
       \<and> (\<forall>k<length (collect_inserts ents).
             Tag k \<in> set (out_pieces text ents)
               \<longleftrightarrow> fst (collect_inserts ents ! k) \<le> length text)
       \<and> render_piece text ents (Tag (2 * j)) = start_tag (tagged ents ! j)
       \<and> render_piece text ents (Tag (2 * j + 1)) = end_tag (tagged ents ! j)
       \<and> (Tag (2 * j) \<in> set (out_pieces text ents)
             \<longleftrightarrow> ent_offset (tagged ents ! j) \<le> length text)
       \<and> Tag (2 * j + 1) \<notin> set (out_pieces text ents)"
proof -
  let ?ins = "collect_inserts ents"
  let ?e = "tagged ents ! j"
  from collect_inserts_nth [OF j]
  have op: "?ins ! (2 * j) = (ent_offset ?e, start_tag ?e)"
    and cl: "?ins ! (2 * j + 1) = (ent_offset ?e + ent_length ?e, end_tag ?e)" by simp_all
  from j have len: "2 * j + 1 < length ?ins" by (simp add: length_collect_inserts)
  from len op have "Tag (2 * j) \<in> set (pieces text ?ins) \<longleftrightarrow> ent_offset ?e \<le> length text"
    by (simp add: Tag_in_pieces)
  moreover from len cl over have "Tag (2 * j + 1) \<notin> set (pieces text ?ins)"
    by (simp add: Tag_in_pieces)
  ultimately show ?thesis
    using entities_to_html_pieces [of "text" ents] op cl
    by (simp add: out_pieces_def render_piece_def Tag_in_pieces)
qed

theorem out_of_range_tags_dropped_witness:
  "(let text = ''ab'';
        ents = [\<lparr>cls = MessageEntityBold, ent_offset = 1, ent_length = 5, url = [], user_id = None, user = None\<rparr>]
    in 0 < length (tagged ents)
       \<and> length text < ent_offset (tagged ents ! 0) + ent_length (tagged ents ! 0)
       \<and> Tag 0 \<in> set (out_pieces text ents)
       \<and> Tag 1 \<notin> set (out_pieces text ents)
       \<and> entities_to_html text ents = ''a<b>b'')"
proof -
  let ?es = "[\<lparr>cls = MessageEntityBold, ent_offset = 1, ent_length = 5, url = [], user_id = None, user = None\<rparr>]"
  have t: "tagged ?es = ?es" by (simp add: tagged_def entity_tags_def)
  have h1: "0 < length (tagged ?es)" unfolding t by simp
  have h2: "length ''ab'' < ent_offset (tagged ?es ! 0) + ent_length (tagged ?es ! 0)"
    unfolding t by simp
  have v: "entities_to_html ''ab'' ?es = ''a<b>b''" by code_simp
  from out_of_range_tags_dropped [OF h1 h2]
  have a: "Tag (2 * 0) \<in> set (out_pieces ''ab'' ?es) \<longleftrightarrow> ent_offset (tagged ?es ! 0) \<le> length ''ab''"
    and b: "Tag (2 * 0 + 1) \<notin> set (out_pieces ''ab'' ?es)" by blast+
  from a have a': "Tag 0 \<in> set (out_pieces ''ab'' ?es)" unfolding t by simp
  from b have b': "Tag 1 \<notin> set (out_pieces ''ab'' ?es)" by simp
  from h1 h2 a' b' v show ?thesis unfolding Let_def by blast
qed

subsection \<open>Identifiers and the routing table\<close>

text \<open>
  C4: \<open>normalize_id\<close> on the one-character string U+00B2 (superscript two).
  \<open>isdigit\<close> accepts it, so the source takes the numeric branch and calls \<open>int\<close>,
  which raises \<open>ValueError\<close>: the function is not total.
\<close>

theorem normalize_id_raises:
  "normalize_id (StrId [CHR 0xB2]) = Inl ValueError"
  by (simp add: normalize_id_def numeric_looking_def isdigit_def isdigit_char_def py_int_def
      startswith_minus_def decimal_char_def)

lemma normalize_id_int: "normalize_id (IntId n) = Inr (IntId n)"
  by (simp add: normalize_id_def)

lemma normalize_id_symbolic: "\<not> numeric_looking s \<Longrightarrow> normalize_id (StrId s) = Inr (StrId s)"
  by (simp add: normalize_id_def)

lemma resolve_dests_order:
  "resolve_dests get_entity ds acc = Inr r \<Longrightarrow> r = acc @ resolved_in_order get_entity ds"
proof (induction ds arbitrary: acc)
  case Nil
  then show ?case by (simp add: resolved_in_order_def)
next
  case (Cons d ds)
  show ?case
  proof (cases "resolve_dest get_entity d")
    case (Inl e)
    with Cons.prems show ?thesis by simp
  next
    case (Inr o1)
    show ?thesis
    proof (cases o1)
      case None
      with Inr Cons.prems have "resolve_dests get_entity ds acc = Inr r" by simp
      then have "r = acc @ resolved_in_order get_entity ds" by (rule Cons.IH)
      with Inr None show ?thesis by (simp add: resolved_in_order_def)
    next
      case (Some i)
      with Inr Cons.prems have "resolve_dests get_entity ds (acc @ [i]) = Inr r" by simp
      then have "r = (acc @ [i]) @ resolved_in_order get_entity ds" by (rule Cons.IH)
      with Inr Some show ?thesis by (simp add: resolved_in_order_def)
    qed
  qed
qed

lemma resolve_loop_invariant:
  "resolve_loop get_entity todo resolved = Inr table \<Longrightarrow>
   set todo \<subseteq> set raw \<Longrightarrow>
   (\<And>src dests. resolved src = Some dests \<Longrightarrow> entry_ok get_entity raw src dests) \<Longrightarrow>
   table src = Some dests \<Longrightarrow> entry_ok get_entity raw src dests"
proof (induction todo arbitrary: resolved)
  case Nil
  then show ?case by simp
next
  case (Cons item todo)
  obtain raw_src raw_dests where item: "item = (raw_src, raw_dests)" by (cases item)
  from Cons.prems(2) item have mem: "(raw_src, raw_dests) \<in> set raw" and sub: "set todo \<subseteq> set raw"
    by simp_all
  show ?case
  proof (cases "resolve_source get_entity raw_src")
    case None
    with Cons.prems(1) item have "resolve_loop get_entity todo resolved = Inr table" by simp
    from Cons.IH [OF this sub Cons.prems(3) Cons.prems(4)] show ?thesis .
  next
    case (Some src_id)
    show ?thesis
    proof (cases "resolve_dests get_entity raw_dests []")
      case (Inl e)
      with Cons.prems(1) item Some show ?thesis by simp
    next
      case (Inr dest_ids)
      then have order: "dest_ids = resolved_in_order get_entity raw_dests"
        using resolve_dests_order [of get_entity raw_dests "[]" dest_ids] by simp
      show ?thesis
      proof (cases "dest_ids = []")
        case True
        with Cons.prems(1) item Some Inr
        have "resolve_loop get_entity todo resolved = Inr table" by simp
        from Cons.IH [OF this sub Cons.prems(3) Cons.prems(4)] show ?thesis .
      next
        case False
        show ?thesis
        proof (cases "int_of_id src_id")
          case (Inl e)
          with Cons.prems(1) item Some Inr False show ?thesis by simp
        next
          case k: (Inr k)
          with Cons.prems(1) item Some Inr False
          have run: "resolve_loop get_entity todo (resolved(k \<mapsto> dest_ids)) = Inr table" by simp
          have new: "entry_ok get_entity raw k dest_ids"
            unfolding entry_ok_def using False mem Some k order by blast
          have inv: "entry_ok get_entity raw s ds" if "(resolved(k \<mapsto> dest_ids)) s = Some ds" for s ds
            using that new Cons.prems(3) by (cases "s = k") simp_all
          from Cons.IH [OF run sub inv Cons.prems(4)] show ?thesis .
        qed
      qed
    qed
  qed
qed

text \<open>
  C7: every entry of a routing table that \<open>_resolve_mappings\<close> returns has at least one
  destination, and its destinations are those of one declaration that resolved, in the
  order of that declaration.
\<close>

theorem routing_table_entries:
  assumes "resolve_mappings get_entity raw_mappings = Inr table"
    and "table src = Some dests"
  shows "dests \<noteq> []
       \<and> (\<exists>raw_src raw_dests src_id.
             (raw_src, raw_dests) \<in> set raw_mappings
           \<and> resolve_source get_entity raw_src = Some src_id
           \<and> int_of_id src_id = Inr src
           \<and> dests = resolved_in_order get_entity raw_dests)"
proof -
  from assms(1) have "resolve_loop get_entity raw_mappings Map.empty = Inr table"
    by (simp add: resolve_mappings_def)
  from resolve_loop_invariant [OF this subset_refl _ assms(2)]
  have "entry_ok get_entity raw_mappings src dests" by simp
  then show ?thesis by (simp add: entry_ok_def)
qed

theorem routing_table_entries_witness:
  "(let get_entity = (\<lambda>name. if name = ''@channelA'' then Found 555 else LookupFailed);
        raw_mappings = [(StrId ''@channelA'', [StrId ''-100123'', StrId ''@channelB''])]
    in resolve_mappings get_entity raw_mappings = Inr [555 \<mapsto> [- 100123]]
       \<and> [- 100123] = resolved_in_order get_entity [StrId ''-100123'', StrId ''@channelB''])"
proof -
  let ?g = "\<lambda>name. if name = ''@channelA'' then Found 555 else LookupFailed"
  let ?raw = "[(StrId ''@channelA'', [StrId ''-100123'', StrId ''@channelB''])]"
  have n1: "\<not> numeric_looking ''@channelA''" "\<not> numeric_looking ''@channelB''"
    "numeric_looking ''-100123''"
    by (simp_all add: numeric_looking_def isdigit_def isdigit_char_def startswith_minus_def)
  have i: "py_int ''-100123'' = Inr (- 100123)"
    by (simp add: py_int_def startswith_minus_def decimal_char_def decimal_value_def digit_value_def)
  have d: "resolve_dests ?g [StrId ''-100123'', StrId ''@channelB''] [] = Inr [- 100123]"
    by (simp add: resolve_dest_def normalize_id_def n1 i)
  have s: "resolve_source ?g (StrId ''@channelA'') = Some (IntId 555)"
    by (simp add: resolve_source_def normalize_id_def n1)
  have h1: "resolve_mappings ?g ?raw = Inr [555 \<mapsto> [- 100123]]"
    by (simp add: resolve_mappings_def s d int_of_id_def del: resolve_dests.simps)
  have h2: "[555 \<mapsto> [- 100123]] (555::int) = Some [- 100123 :: int]" by simp
  from routing_table_entries [OF h1 h2]
  have "\<exists>raw_src raw_dests. (raw_src, raw_dests) \<in> set ?raw
          \<and> [- 100123] = resolved_in_order ?g raw_dests" by blast
  then have "[- 100123] = resolved_in_order ?g [StrId ''-100123'', StrId ''@channelB'']" by simp
  with h1 show ?thesis unfolding Let_def by blast
qed

subsection \<open>The content filter\<close>

lemma py_in_sublist: "py_in k t \<longleftrightarrow> sublist k t"
  by (induction t) (simp_all add: sublist_Cons_right)

lemma py_strip_empty: "py_strip s = [] \<longleftrightarrow> blank s"
proof -
  let ?rest = "dropWhile isspace_char s"
  have "py_strip s = [] \<longleftrightarrow> (\<forall>c\<in>set ?rest. isspace_char c)"
    by (simp add: py_strip_def dropWhile_eq_Nil_conv)
  also have "\<dots> \<longleftrightarrow> (\<forall>c\<in>set s. isspace_char c)"
  proof
    assume all: "\<forall>c\<in>set ?rest. isspace_char c"
    have "?rest = []"
    proof (rule ccontr)
      assume ne: "?rest \<noteq> []"
      then have "\<not> isspace_char (hd ?rest)" by (rule hd_dropWhile)
      moreover from ne have "hd ?rest \<in> set ?rest" by (rule hd_in_set)
      ultimately show False using all by blast
    qed
    then show "\<forall>c\<in>set s. isspace_char c" by (simp only: dropWhile_eq_Nil_conv)
  next
    assume "\<forall>c\<in>set s. isspace_char c"
    then show "\<forall>c\<in>set ?rest. isspace_char c" by (meson set_dropWhileD)
  qed
  finally show ?thesis by (simp add: blank_def)
qed

lemma blank_body:
  "(case message msg of None \<Rightarrow> True | Some t \<Rightarrow> t = [] \<or> py_strip t = []) \<longleftrightarrow> blank (body msg)"
  by (cases "message msg") (auto simp add: body_def py_strip_empty blank_def)

lemma init_keywords_match:
  "list_ex (\<lambda>k. py_in k t) (init_keywords ks) \<longleftrightarrow> (\<exists>k\<in>set ks. sublist (py_lower k) t)"
  by (auto simp add: init_keywords_def list_ex_iff py_in_sublist)

lemma init_keywords_empty: "init_keywords ks = [] \<longleftrightarrow> ks = []"
  by (simp add: init_keywords_def)

lemma calls_of_append: "calls_of (xs @ ys) = calls_of xs @ calls_of ys"
  by (induction xs rule: calls_of.induct) simp_all

text \<open>
  C8: the filter accepts a message exactly when it is not a service message, it is not
  both blank and without media, and either no keyword is configured or the lowercased
  text contains a lowercased keyword; a message it does not accept causes no send.
\<close>

theorem content_filter_rules:
  "((\<exists>t. filter_message (init_keywords ks) msg = Accepted t) \<longleftrightarrow>
      action msg = None
      \<and> \<not> (blank (body msg) \<and> media msg = None)
      \<and> (ks = [] \<or> (\<exists>k\<in>set ks. sublist (py_lower k) (py_lower (body msg)))))
   \<and> (filter_message (init_keywords ks) msg = Accepted t \<longrightarrow> t = body msg)
   \<and> ((\<forall>t. filter_message (keyword_list self) msg \<noteq> Accepted t) \<longrightarrow>
        calls_of (fst (on_message self client src_id msg w)) = [] \<and> snd (on_message self client src_id msg w) = w)"
proof -
  have bd: "(case message msg of None \<Rightarrow> [] | Some t \<Rightarrow> t) = body msg" by (simp add: body_def)
  have a: "(\<exists>t. filter_message (init_keywords ks) msg = Accepted t) \<longleftrightarrow>
      action msg = None
      \<and> \<not> (blank (body msg) \<and> media msg = None)
      \<and> (ks = [] \<or> (\<exists>k\<in>set ks. sublist (py_lower k) (py_lower (body msg))))"
    unfolding filter_message_def blank_body bd Let_def
    by (auto simp add: init_keywords_match init_keywords_empty)
  have b: "filter_message (init_keywords ks) msg = Accepted t \<longrightarrow> t = body msg"
    unfolding filter_message_def blank_body bd Let_def by (auto split: if_splits)
  have c: "(\<forall>t. filter_message (keyword_list self) msg \<noteq> Accepted t) \<longrightarrow>
        calls_of (fst (on_message self client src_id msg w)) = [] \<and> snd (on_message self client src_id msg w) = w"
    by (cases "filter_message (keyword_list self) msg") (simp_all add: on_message_def)
  from a b c show ?thesis by blast
qed

theorem content_filter_rules_witness:
  "filter_message (init_keywords [''sale''])
     \<lparr>action = None, message = Some ''Big SALE today'', media = None, entities = None\<rparr>
     = Accepted ''Big SALE today''
   \<and> (\<forall>t. filter_message (init_keywords [''sale''])
     \<lparr>action = None, message = Some ''no promo here'', media = None, entities = None\<rparr>
     \<noteq> Accepted t)"
proof -
  let ?yes = "\<lparr>action = None, message = Some ''Big SALE today'', media = None, entities = None\<rparr>"
  let ?no = "\<lparr>action = None, message = Some ''no promo here'', media = None, entities = None\<rparr>"
  have low: "py_lower ''sale'' = ''sale''" "py_lower ''Big SALE today'' = ''big sale today''"
    "py_lower ''no promo here'' = ''no promo here''"
    by code_simp+
  have m1: "sublist ''sale'' ''big sale today''"
    unfolding py_in_sublist [symmetric] by simp
  have m2: "\<not> sublist ''sale'' ''no promo here''"
    unfolding py_in_sublist [symmetric] by simp
  have nb: "\<not> blank ''Big SALE today''" by (simp add: blank_def isspace_char_def)
  note iff = content_filter_rules [THEN conjunct1]
  note body_eq = content_filter_rules [THEN conjunct2, THEN conjunct1]
  from iff [of "[''sale'']" ?yes] m1 nb
  have "\<exists>t. filter_message (init_keywords [''sale'']) ?yes = Accepted t"
    by (simp add: body_def low)
  then obtain t where t: "filter_message (init_keywords [''sale'']) ?yes = Accepted t" ..
  with body_eq [of "[''sale'']" ?yes t] have "t = body ?yes" by blast
  with t have yes: "filter_message (init_keywords [''sale'']) ?yes = Accepted ''Big SALE today''"
    by (simp add: body_def)
  from iff [of "[''sale'']" ?no] m2
  have "\<not> (\<exists>t. filter_message (init_keywords [''sale'']) ?no = Accepted t)"
    by (simp add: body_def low)
  with yes show ?thesis by blast
qed

subsection \<open>The delivery loop\<close>

lemma calls_of_after_send: "calls_of (after_send dly src_id dest r) = []"
  by (cases r) (simp_all add: after_send_def Let_def)

lemma send_body_calls:
  assumes "send_body client msg text dest w = (calls, r, w')"
  shows "calls \<noteq> [] \<and> length calls \<le> 2 \<and> (\<forall>ev\<in>set calls. \<exists>c. ev = Call c \<and> call_dest c = dest)"
  using assms
  by (auto simp add: send_body_def Let_def split: option.splits list.splits prod.splits if_splits)

lemma deliver_append:
  "deliver client dly msg text src_id (xs @ ys) w0 =
     (case deliver client dly msg text src_id xs w0 of
        (evs, w) \<Rightarrow>
          (case deliver client dly msg text src_id ys w of
             (evs', w') \<Rightarrow> (evs @ evs', w')))"
  by (induction xs arbitrary: w0) (simp_all split: prod.splits)

lemma filter_accepted_body: "filter_message kws msg = Accepted t \<Longrightarrow> t = body msg"
  by (auto simp add: filter_message_def body_def Let_def split: if_splits)

lemma send_body_media:
  "media msg = Some m \<Longrightarrow>
   fst (send_body client msg text dest w)
     = [Call (SendFile dest m (if text \<noteq> [] then Some text else None)
               (case entities msg of None \<Rightarrow> None | Some [] \<Rightarrow> None | Some (e # es) \<Rightarrow> Some (e # es)))]"
  by (simp add: send_body_def Let_def split: prod.splits)

lemma deliver_media_calls:
  "media msg = Some m \<Longrightarrow>
   calls_of (fst (deliver client dly msg text src_id dests w))
     = map (\<lambda>dest. SendFile dest m (if text \<noteq> [] then Some text else None)
              (case entities msg of None \<Rightarrow> None | Some [] \<Rightarrow> None | Some (e # es) \<Rightarrow> Some (e # es)))
         dests"
proof (induction dests arbitrary: w)
  case Nil
  show ?case by simp
next
  case (Cons dest dests)
  obtain calls r w' where sb: "send_body client msg text dest w = (calls, r, w')"
    by (cases "send_body client msg text dest w")
  with send_body_media [OF Cons.prems, of client "text" dest w]
  have calls: "calls = [Call (SendFile dest m (if text \<noteq> [] then Some text else None)
               (case entities msg of None \<Rightarrow> None | Some [] \<Rightarrow> None | Some (e # es) \<Rightarrow> Some (e # es)))]"
    by simp
  obtain evs' w'' where rest: "deliver client dly msg text src_id dests w' = (evs', w'')"
    by (cases "deliver client dly msg text src_id dests w'")
  from Cons.IH [OF Cons.prems, of w'] rest
  have "calls_of evs' = map (\<lambda>dest. SendFile dest m (if text \<noteq> [] then Some text else None)
              (case entities msg of None \<Rightarrow> None | Some [] \<Rightarrow> None | Some (e # es) \<Rightarrow> Some (e # es)))
         dests" by simp
  with sb calls rest show ?case
    by (simp add: mirror_to_def calls_of_append calls_of_after_send)
qed

text \<open>
  C9: a text-only message with annotations, whose markup send fails with any error
  \<open>r1\<close>. The plain text is sent next to the same destination, and what follows
  depends on the result \<open>r2\<close> of that second send alone: the flood-wait handler runs
  exactly when the second send raises the flood-wait error.
\<close>

theorem markup_failure_falls_back:
  assumes "media msg = None" and "entities msg = Some (e # es)"
    and "client w (SendMessage dest (entities_to_html text (e # es)) True) = (r1, w1)"
    and "r1 \<noteq> Sent"
    and "client w1 (SendMessage dest text False) = (r2, w2)"
  shows "mirror_to client dly msg text src_id dest w =
           ([Call (SendMessage dest (entities_to_html text (e # es)) True),
             Call (SendMessage dest text False)] @ after_send dly src_id dest r2, w2)
       \<and> ((\<exists>n. LogFloodWait dest n \<in> set (fst (mirror_to client dly msg text src_id dest w)))
            \<longleftrightarrow> (\<exists>secs. r2 = FloodWaitError secs))
       \<and> (\<forall>n. r2 = FloodWaitError (Some n) \<longrightarrow>
            after_send dly src_id dest r2 = [LogFloodWait dest n, Sleep (real_of_int (n + 5))])"
proof -
  from assms have run: "mirror_to client dly msg text src_id dest w =
           ([Call (SendMessage dest (entities_to_html text (e # es)) True),
             Call (SendMessage dest text False)] @ after_send dly src_id dest r2, w2)"
    by (simp add: mirror_to_def send_body_def Let_def)
  have "(\<exists>n. LogFloodWait dest n \<in> set (after_send dly src_id dest r2))
            \<longleftrightarrow> (\<exists>secs. r2 = FloodWaitError secs)"
    by (cases r2) (auto simp add: after_send_def Let_def)
  with run have hand: "(\<exists>n. LogFloodWait dest n \<in> set (fst (mirror_to client dly msg text src_id dest w)))
            \<longleftrightarrow> (\<exists>secs. r2 = FloodWaitError secs)" by simp
  have "\<forall>n. r2 = FloodWaitError (Some n) \<longrightarrow>
            after_send dly src_id dest r2 = [LogFloodWait dest n, Sleep (real_of_int (n + 5))]"
    by (simp add: after_send_def)
  with run hand show ?thesis by blast
qed

theorem markup_failure_falls_back_witness:
  "(let client = (\<lambda>w c. (if w = (0::nat) then FloodWaitError (Some 30) else Sent, Suc w));
        msg = \<lparr>action = None, message = Some ''Hi'', media = None,
               entities = Some [\<lparr>cls = MessageEntityBold, ent_offset = 0, ent_length = 2,
                                 url = [], user_id = None, user = None\<rparr>]\<rparr>
    in mirror_to client 2 msg ''Hi'' 100 7 0
         = ([Call (SendMessage 7 ''<b>Hi</b>'' True), Call (SendMessage 7 ''Hi'' False),
             LogMirrored 100 7, Sleep 2], 2))"
proof -
  let ?client = "\<lambda>w c. (if w = (0::nat) then FloodWaitError (Some 30) else Sent, Suc w)"
  let ?e = "\<lparr>cls = MessageEntityBold, ent_offset = 0, ent_length = 2,
                                 url = [], user_id = None, user = None\<rparr>"
  let ?msg = "\<lparr>action = None, message = Some ''Hi'', media = None, entities = Some [?e]\<rparr>"
  have html: "entities_to_html ''Hi'' [?e] = ''<b>Hi</b>''" by code_simp
  have h1: "media ?msg = None" by simp
  have h2: "entities ?msg = Some (?e # [])" by simp
  have h3: "?client 0 (SendMessage 7 (entities_to_html ''Hi'' (?e # [])) True)
              = (FloodWaitError (Some 30), 1)" by simp
  have h4: "FloodWaitError (Some 30) \<noteq> Sent" by simp
  have h5: "?client 1 (SendMessage 7 ''Hi'' False) = (Sent, 2)" by simp
  from markup_failure_falls_back [OF h1 h2 h3 h4 h5, where dly = 2 and src_id = 100]
  have "mirror_to ?client 2 ?msg ''Hi'' 100 7 0 =
           ([Call (SendMessage 7 (entities_to_html ''Hi'' [?e]) True),
             Call (SendMessage 7 ''Hi'' False)] @ after_send 2 100 7 Sent, 2)" by blast
  then show ?thesis unfolding Let_def html by (simp add: after_send_def)
qed

text \<open>
  C1, as stated: after a flood-wait on one destination no later destination is
  attempted. It fails: with destinations 1 and 2 and a flood-wait of 30 seconds on 1,
  the handler sleeps 35 seconds and then sends to 2.
\<close>

theorem flood_wait_does_not_stop_pass:
  "on_message \<lparr>keyword_list = [], delay = 2, mappings = [100 \<mapsto> [1, 2]]\<rparr>
     (\<lambda>w c. (if call_dest c = 1 then FloodWaitError (Some 30) else Sent, w))
     100 \<lparr>action = None, message = Some ''hi'', media = None, entities = None\<rparr> ()
   = ([Call (SendMessage 1 ''hi'' False), LogFloodWait 1 30, Sleep 35,
       Call (SendMessage 2 ''hi'' False), LogMirrored 100 2, Sleep 2], ())"
  by (simp add: on_message_def filter_message_def py_strip_def isspace_char_def
      mirror_to_def send_body_def after_send_def Let_def)

text \<open>
  C1, amended: when the sends to destination \<open>D\<close> end in a flood-wait of \<open>W\<close> seconds,
  the handler logs it and sleeps \<open>W + 5\<close> seconds; \<open>D\<close> got one attempt (one call, or the
  markup call and its plain-text fallback), is not logged as mirrored, and the loop
  goes on with the destinations after \<open>D\<close>.
\<close>

theorem flood_wait_then_next:
  assumes "deliver client dly msg text src_id before w0 = (evs_before, w)"
    and "send_body client msg text D w = (calls, FloodWaitError (Some W), w')"
    and "deliver client dly msg text src_id after w' = (evs_after, w_end)"
  shows "deliver client dly msg text src_id (before @ D # after) w0
           = (evs_before @ calls @ [LogFloodWait D W, Sleep (real_of_int (W + 5))] @ evs_after, w_end)
       \<and> calls \<noteq> [] \<and> length calls \<le> 2
       \<and> (\<forall>ev\<in>set calls. \<exists>c. ev = Call c \<and> call_dest c = D)
       \<and> LogMirrored src_id D \<notin> set (calls @ [LogFloodWait D W, Sleep (real_of_int (W + 5))])"
proof -
  from assms have run: "deliver client dly msg text src_id (before @ D # after) w0
           = (evs_before @ calls @ [LogFloodWait D W, Sleep (real_of_int (W + 5))] @ evs_after, w_end)"
    by (simp add: deliver_append mirror_to_def after_send_def)
  from send_body_calls [OF assms(2)]
  have c: "calls \<noteq> [] \<and> length calls \<le> 2 \<and> (\<forall>ev\<in>set calls. \<exists>c. ev = Call c \<and> call_dest c = D)" .
  then have "LogMirrored src_id D \<notin> set (calls @ [LogFloodWait D W, Sleep (real_of_int (W + 5))])"
    by auto
  with run c show ?thesis by blast
qed

theorem flood_wait_then_next_witness:
  "(let client = (\<lambda>w c. (if call_dest c = 1 then FloodWaitError (Some 30) else Sent, w));
        msg = \<lparr>action = None, message = Some ''hi'', media = None, entities = None\<rparr>
    in send_body client msg ''hi'' 1 () = ([Call (SendMessage 1 ''hi'' False)], FloodWaitError (Some 30), ())
       \<and> deliver client 2 msg ''hi'' 100 ([] @ 1 # [2]) ()
           = ([Call (SendMessage 1 ''hi'' False), LogFloodWait 1 30, Sleep 35,
               Call (SendMessage 2 ''hi'' False), LogMirrored 100 2, Sleep 2], ()))"
proof -
  let ?client = "\<lambda>w c. (if call_dest c = 1 then FloodWaitError (Some 30) else Sent, w)"
  let ?msg = "\<lparr>action = None, message = Some ''hi'', media = None, entities = None\<rparr>"
  have h1: "deliver ?client 2 ?msg ''hi'' 100 [] () = ([], ())" by simp
  have h2: "send_body ?client ?msg ''hi'' 1 ()
              = ([Call (SendMessage 1 ''hi'' False)], FloodWaitError (Some 30), ())"
    by (simp add: send_body_def)
  have h3: "deliver ?client 2 ?msg ''hi'' 100 [2] ()
              = ([Call (SendMessage 2 ''hi'' False), LogMirrored 100 2, Sleep 2], ())"
    by (simp add: mirror_to_def send_body_def after_send_def)
  from flood_wait_then_next [OF h1 h2 h3]
  have "deliver ?client 2 ?msg ''hi'' 100 ([] @ 1 # [2]) ()
          = ([] @ [Call (SendMessage 1 ''hi'' False)] @ [LogFloodWait 1 30, Sleep (real_of_int (30 + 5))]
               @ [Call (SendMessage 2 ''hi'' False), LogMirrored 100 2, Sleep 2], ())"
    by blast
  with h2 show ?thesis unfolding Let_def by simp
qed

text \<open>
  C5, as stated: the caption of a media message carries no annotation metadata. It
  fails: the annotations of the message are passed to \<open>send_file\<close> as
  \<open>caption_entities\<close>, next to the plain-text caption.
\<close>

theorem media_caption_carries_entities:
  "calls_of (fst (on_message \<lparr>keyword_list = [], delay = 2, mappings = [100 \<mapsto> [7]]\<rparr>
     (\<lambda>w c. (Sent, w)) 100
     \<lparr>action = None, message = Some ''Hi'', media = Some ''photo'',
        entities = Some [\<lparr>cls = MessageEntityBold, ent_offset = 0, ent_length = 2,
                          url = [], user_id = None, user = None\<rparr>]\<rparr> ()))
   = [SendFile 7 ''photo'' (Some ''Hi'')
        (Some [\<lparr>cls = MessageEntityBold, ent_offset = 0, ent_length = 2,
                 url = [], user_id = None, user = None\<rparr>])]"
  by (simp add: on_message_def filter_message_def py_strip_def isspace_char_def
      mirror_to_def send_body_def after_send_def Let_def)

text \<open>
  C5, amended: for an accepted message with media, the calls of the handler are one
  \<open>send_file\<close> per destination, in order, each with the media, with the plain text of
  the message as caption (no caption when the text is empty, never the transcoded
  markup), and with the annotations of the message, when it has any, as
  \<open>caption_entities\<close>.
\<close>

theorem media_sent_with_plain_caption:
  assumes "filter_message (keyword_list self) msg = Accepted text"
    and "media msg = Some m"
  shows "calls_of (fst (on_message self client src_id msg w))
           = map (\<lambda>dest. SendFile dest m
                    (if body msg \<noteq> [] then Some (body msg) else None)
                    (case entities msg of None \<Rightarrow> None | Some [] \<Rightarrow> None
                       | Some (e # es) \<Rightarrow> Some (e # es)))
               (case mappings self src_id of None \<Rightarrow> [] | Some ds \<Rightarrow> ds)"
proof -
  from assms(1) have t: "text = body msg" by (rule filter_accepted_body)
  show ?thesis
  proof (cases "(case mappings self src_id of None \<Rightarrow> [] | Some ds \<Rightarrow> ds) = []")
    case True
    with assms(1) show ?thesis by (simp add: on_message_def)
  next
    case False
    with assms(1) have "on_message self client src_id msg w
        = deliver client (delay self) msg text src_id
            (case mappings self src_id of None \<Rightarrow> [] | Some ds \<Rightarrow> ds) w"
      by (simp add: on_message_def)
    with deliver_media_calls [OF assms(2), of client "delay self" "text" src_id _ w] t
    show ?thesis by simp
  qed
qed

theorem media_sent_with_plain_caption_witness:
  "calls_of (fst (on_message \<lparr>keyword_list = [], delay = 2, mappings = [100 \<mapsto> [7, 8]]\<rparr>
     (\<lambda>w c. (if call_dest c = 7 then OtherError else Sent, w)) 100
     \<lparr>action = None, message = Some ''a<b'', media = Some ''photo'', entities = None\<rparr> ()))
   = [SendFile 7 ''photo'' (Some ''a<b'') None, SendFile 8 ''photo'' (Some ''a<b'') None]"
proof -
  let ?self = "\<lparr>keyword_list = [], delay = 2, mappings = [100 \<mapsto> [7, 8]]\<rparr>"
  let ?msg = "\<lparr>action = None, message = Some ''a<b'', media = Some ''photo'', entities = None\<rparr>"
  have h1: "filter_message (keyword_list ?self) ?msg = Accepted ''a<b''"
    by (simp add: filter_message_def py_strip_def isspace_char_def)
  have h2: "media ?msg = Some ''photo''" by simp
  from media_sent_with_plain_caption [OF h1 h2, where src_id = 100]
  show ?thesis by (simp add: body_def)
qed

end
